theory Spec2Isabelle
  imports Main "HOL-Library.Char_ord"
begin

section \<open>Logical cluster names and paths\<close>

text \<open>
  A shallow embedding of package \<open>logicalcluster\<close> (\<open>name.go\<close>, \<open>path.go\<close>).
  Go strings are byte sequences, so a Go \<open>string\<close> is a \<^typ>\<open>string\<close> (a list of
  8-bit characters) and indices count bytes.
\<close>

subsection \<open>Data\<close>

text \<open>\<open>type Name string\<close> and \<open>type Path struct { value string }\<close>.\<close>

datatype Name = Name (name_string: string)

datatype Path = Path (path_value: string)

text \<open>\<open>Wildcard = Path{value: "*"}\<close> and \<open>separator = ":"\<close> (a one-byte string).\<close>

definition Wildcard :: Path where
  "Wildcard = Path ''*''"

definition separator :: char where
  "separator = CHR '':''"

subsection \<open>The string functions of the Go library that the package calls\<close>

text \<open>
  \<open>strings.LastIndex(s, sep)\<close> for a one-byte \<open>sep\<close>: the library scans \<open>s\<close> from its
  last byte down to its first and returns the first index at which the byte is found,
  or \<open>-1\<close>. Scanning the reversed string, the bytes left after the hit are those before
  it in \<open>s\<close>, so their number is the index.
\<close>

definition LastIndex :: "string \<Rightarrow> char \<Rightarrow> int" where
  "LastIndex s c =
     (case dropWhile (\<lambda>x. x \<noteq> c) (rev s) of
        [] \<Rightarrow> - 1
      | _ # before \<Rightarrow> int (length before))"

text \<open>\<open>strings.HasPrefix(s, prefix)\<close> is
  \<open>len(s) >= len(prefix) && s[:len(prefix)] == prefix\<close>.\<close>

definition strings_HasPrefix :: "string \<Rightarrow> string \<Rightarrow> bool" where
  "strings_HasPrefix s pre \<longleftrightarrow> length pre \<le> length s \<and> take (length pre) s = pre"

subsection \<open>Operations of \<open>Path\<close>\<close>

definition New :: "string \<Rightarrow> Path" where
  "New v = Path v"

definition Path_Empty :: "Path \<Rightarrow> bool" where
  "Path_Empty n \<longleftrightarrow> path_value n = []"

text \<open>\<open>Split\<close>: \<open>i := strings.LastIndex(n.value, separator)\<close>; for \<open>i < 0\<close> the result is
  \<open>(Path{}, n.value)\<close>, otherwise \<open>(Path{n.value[:i]}, n.value[i+1:])\<close>. Both slices are in
  range, since \<open>0 \<le> i < len(n.value)\<close> there.\<close>

definition Split :: "Path \<Rightarrow> Path \<times> string" where
  "Split n =
     (let i = LastIndex (path_value n) separator
      in if i < 0 then (Path [], path_value n)
         else (Path (take (nat i) (path_value n)), drop (nat i + 1) (path_value n)))"

text \<open>\<open>Parent\<close>: \<open>parent, _ := n.Split(); return parent, parent.value != ""\<close>.\<close>

definition Parent :: "Path \<Rightarrow> Path \<times> bool" where
  "Parent n = (let parent = fst (Split n) in (parent, path_value parent \<noteq> []))"

text \<open>\<open>Path.Name\<close>: fails with the empty name when \<open>Parent\<close> reports a parent.\<close>

definition Path_Name :: "Path \<Rightarrow> Name \<times> bool" where
  "Path_Name n =
     (let hasParent = snd (Parent n)
      in if hasParent then (Name [], False) else (Name (path_value n), True))"

definition Base :: "Path \<Rightarrow> string" where
  "Base n = snd (Split n)"

definition Join :: "Path \<Rightarrow> string \<Rightarrow> Path" where
  "Join n name =
     (if path_value n = [] then Path name
      else Path (path_value n @ [separator] @ name))"

definition HasPrefix :: "Path \<Rightarrow> Path \<Rightarrow> bool" where
  "HasPrefix n other \<longleftrightarrow> strings_HasPrefix (path_value n) (path_value other)"

subsection \<open>Operations of \<open>Name\<close> and the annotation lookup\<close>

definition Name_Path :: "Name \<Rightarrow> Path" where
  "Name_Path n = New (name_string n)"

definition Name_Empty :: "Name \<Rightarrow> bool" where
  "Name_Empty n \<longleftrightarrow> n = Name []"

text \<open>
  A Go \<open>map[string]string\<close> is either \<open>nil\<close> or a finite table; reading a key that is
  not there, and reading any key of the \<open>nil\<close> map, gives the zero value \<open>""\<close>.
\<close>

type_synonym go_map = "(string \<rightharpoonup> string) option"

definition map_index :: "go_map \<Rightarrow> string \<Rightarrow> string" where
  "map_index m k =
     (case m of
        None \<Rightarrow> []
      | Some tab \<Rightarrow> (case tab k of None \<Rightarrow> [] | Some v \<Rightarrow> v))"

text \<open>The interface \<open>Object\<close> has the single method \<open>GetAnnotations\<close>.\<close>

record Object =
  GetAnnotations :: go_map

definition AnnotationKey :: string where
  "AnnotationKey = ''kcp.dev/cluster''"

definition From :: "Object \<Rightarrow> Name" where
  "From obj = Name (map_index (GetAnnotations obj) AnnotationKey)"

subsection \<open>Regular expressions\<close>

text \<open>
  A parsed regular expression, with the operators of Go's \<open>regexp/syntax\<close> that the two
  patterns of the package use (\<open>Alternate\<close> and \<open>NoMatch\<close> arise while matching).
  A character class is its list of ranges, ends included.
\<close>

datatype regexp =
    NoMatch
  | EmptyMatch
  | Literal char
  | CharClass "(char \<times> char) list"
  | Concat regexp regexp
  | Alternate regexp regexp
  | Star regexp
  | Quest regexp

text \<open>
  A counted repetition \<open>x{n,m}\<close> is not an operator of the matcher: Go's compiler
  rewrites it to \<open>n\<close> copies of \<open>x\<close> followed by \<open>m - n\<close> nested optional copies, so
  \<open>x{0,2}\<close> is \<open>(x(x)?)?\<close>.
\<close>

fun Repeat :: "regexp \<Rightarrow> nat \<Rightarrow> nat \<Rightarrow> regexp" where
  "Repeat r 0 0 = EmptyMatch"
| "Repeat r 0 (Suc m) = Quest (Concat r (Repeat r 0 m))"
| "Repeat r (Suc n) m = Concat r (Repeat r n (m - 1))"

definition in_class :: "(char \<times> char) list \<Rightarrow> char \<Rightarrow> bool" where
  "in_class ranges c = list_ex (\<lambda>(lo, hi). lo \<le> c \<and> c \<le> hi) ranges"

text \<open>
  Matching by derivatives: \<open>nullable r\<close> tells whether \<open>r\<close> matches the empty text, and
  \<open>deriv c r\<close> matches what \<open>r\<close> matches after a leading byte \<open>c\<close>. The classes and the
  literal of the two patterns hold ASCII characters only, which UTF-8 encodes in one
  byte each, and no byte of a longer encoding is in them, so matching bytes agrees with
  Go's matching of runes.
\<close>

fun nullable :: "regexp \<Rightarrow> bool" where
  "nullable NoMatch = False"
| "nullable EmptyMatch = True"
| "nullable (Literal c) = False"
| "nullable (CharClass ranges) = False"
| "nullable (Concat r s) = (nullable r \<and> nullable s)"
| "nullable (Alternate r s) = (nullable r \<or> nullable s)"
| "nullable (Star r) = True"
| "nullable (Quest r) = True"

fun deriv :: "char \<Rightarrow> regexp \<Rightarrow> regexp" where
  "deriv c NoMatch = NoMatch"
| "deriv c EmptyMatch = NoMatch"
| "deriv c (Literal d) = (if c = d then EmptyMatch else NoMatch)"
| "deriv c (CharClass ranges) = (if in_class ranges c then EmptyMatch else NoMatch)"
| "deriv c (Concat r s) =
     (if nullable r then Alternate (Concat (deriv c r) s) (deriv c s)
      else Concat (deriv c r) s)"
| "deriv c (Alternate r s) = Alternate (deriv c r) (deriv c s)"
| "deriv c (Star r) = Concat (deriv c r) (Star r)"
| "deriv c (Quest r) = deriv c r"

text \<open>
  Both patterns of the package have the form \<open>^e$\<close> and set no flag, so \<open>^\<close> holds only
  at the beginning of the text and \<open>$\<close> only at its end: \<open>MatchString\<close> finds a match
  exactly when \<open>e\<close> matches the whole text. A \<^typ>\<open>regexp\<close> below is the \<open>e\<close> of such a
  pattern.
\<close>

definition MatchString :: "regexp \<Rightarrow> string \<Rightarrow> bool" where
  "MatchString re s = nullable (foldl (\<lambda>r c. deriv c r) re s)"

text \<open>The classes \<open>[a-z0-9]\<close> and \<open>[a-z0-9-]\<close>.\<close>

definition class_alnum :: regexp where
  "class_alnum = CharClass [(CHR ''a'', CHR ''z''), (CHR ''0'', CHR ''9'')]"

definition class_alnum_hyphen :: regexp where
  "class_alnum_hyphen =
     CharClass [(CHR ''a'', CHR ''z''), (CHR ''0'', CHR ''9''), (CHR ''-'', CHR ''-'')]"

text \<open>\<open>clusterNameString = "^[a-z0-9][a-z0-9-]{0,61}[a-z0-9]$"\<close> (\<open>name.go\<close>).\<close>

definition clusterNameString :: regexp where
  "clusterNameString = Concat class_alnum (Concat (Repeat class_alnum_hyphen 0 61) class_alnum)"

text \<open>\<open>lclusterNameFmt = "[a-z0-9]([a-z0-9-]{0,61}[a-z0-9])?"\<close> and
  \<open>lclusterRegExp = "^" + lclusterNameFmt + "(:" + lclusterNameFmt + ")*$"\<close> (\<open>path.go\<close>).\<close>

definition lclusterNameFmt :: regexp where
  "lclusterNameFmt =
     Concat class_alnum (Quest (Concat (Repeat class_alnum_hyphen 0 61) class_alnum))"

definition lclusterRegExp :: regexp where
  "lclusterRegExp =
     Concat lclusterNameFmt (Star (Concat (Literal CHR '':'') lclusterNameFmt))"

definition clusterNameRegExp :: regexp where
  "clusterNameRegExp = clusterNameString"

text \<open>\<open>Name.IsValid\<close>: \<open>clusterNameRegExp.MatchString(string(n))\<close>.\<close>

definition Name_IsValid :: "Name \<Rightarrow> bool" where
  "Name_IsValid n \<longleftrightarrow> MatchString clusterNameRegExp (name_string n)"

text \<open>\<open>Path.IsValid\<close>: \<open>n == Wildcard || lclusterRegExp.MatchString(n.value)\<close>.\<close>

definition Path_IsValid :: "Path \<Rightarrow> bool" where
  "Path_IsValid n \<longleftrightarrow> n = Wildcard \<or> MatchString lclusterRegExp (path_value n)"

definition NewValidated :: "string \<Rightarrow> Path \<times> bool" where
  "NewValidated v = (let n = Path v in (n, Path_IsValid n))"

section \<open>The grammars in words\<close>

text \<open>
  The set of texts a regular expression denotes, against which the matcher is proved
  correct, and the properties of strings that the specification states in words.
\<close>

definition conc :: "string set \<Rightarrow> string set \<Rightarrow> string set" where
  "conc A B = {u @ v | u v. u \<in> A \<and> v \<in> B}"

inductive_set star :: "string set \<Rightarrow> string set" for A :: "string set" where
  star_empty: "[] \<in> star A"
| star_step: "u \<in> A \<Longrightarrow> v \<in> star A \<Longrightarrow> u @ v \<in> star A"

fun lang :: "regexp \<Rightarrow> string set" where
  "lang NoMatch = {}"
| "lang EmptyMatch = {[]}"
| "lang (Literal c) = {[c]}"
| "lang (CharClass ranges) = {[c] | c. in_class ranges c}"
| "lang (Concat r s) = conc (lang r) (lang s)"
| "lang (Alternate r s) = lang r \<union> lang s"
| "lang (Star r) = star (lang r)"
| "lang (Quest r) = insert [] (lang r)"

text \<open>A lower-case ASCII letter or digit; an interior character may also be a hyphen.\<close>

definition is_lower_alnum :: "char \<Rightarrow> bool" where
  "is_lower_alnum c \<longleftrightarrow> CHR ''a'' \<le> c \<and> c \<le> CHR ''z'' \<or> CHR ''0'' \<le> c \<and> c \<le> CHR ''9''"

definition is_interior :: "char \<Rightarrow> bool" where
  "is_interior c \<longleftrightarrow> is_lower_alnum c \<or> c = CHR ''-''"

text \<open>
  The shape of a segment, whatever its length: not empty, first and last character a
  lower-case letter or digit, the characters between them lower-case letters, digits or
  hyphens. \<open>segment_grammar\<close> adds the bound of 63 characters, and \<open>name_grammar\<close> is the
  grammar of a name: the same shape with 2 to 63 characters.
\<close>

definition segment_shape :: "string \<Rightarrow> bool" where
  "segment_shape s \<longleftrightarrow>
     s \<noteq> [] \<and> is_lower_alnum (hd s) \<and> is_lower_alnum (last s) \<and>
     list_all is_interior (butlast (tl s))"

definition segment_grammar :: "string \<Rightarrow> bool" where
  "segment_grammar s \<longleftrightarrow> segment_shape s \<and> length s \<le> 63"

definition name_grammar :: "string \<Rightarrow> bool" where
  "name_grammar s \<longleftrightarrow>
     2 \<le> length s \<and> length s \<le> 63 \<and> is_lower_alnum (hd s) \<and> is_lower_alnum (last s) \<and>
     list_all is_interior (butlast (tl s))"

text \<open>Segments written one after the other with a single separator between neighbours,
  and the cutting of a string at every separator.\<close>

fun join_with :: "char \<Rightarrow> string list \<Rightarrow> string" where
  "join_with c [] = []"
| "join_with c [w] = w"
| "join_with c (w # v # ws) = w @ c # join_with c (v # ws)"

fun split_on :: "char \<Rightarrow> string \<Rightarrow> string list" where
  "split_on c [] = [[]]"
| "split_on c (x # xs) =
     (if x = c then [] # split_on c xs
      else (case split_on c xs of [] \<Rightarrow> [[x]] | w # ws \<Rightarrow> (x # w) # ws))"

section \<open>Properties of the string operations\<close>

lemma LastIndex_absent:
  assumes "c \<notin> set s"
  shows "LastIndex s c = - 1"
proof -
  from assms have "dropWhile (\<lambda>x. x \<noteq> c) (rev s) = []"
    by (simp add: dropWhile_eq_Nil_conv) blast
  then show ?thesis unfolding LastIndex_def by (simp only: list.case)
qed

lemma LastIndex_final_hit:
  assumes "c \<notin> set b"
  shows "LastIndex (a @ c # b) c = int (length a)"
proof -
  have "rev (a @ c # b) = rev b @ (c # rev a)" by simp
  moreover from assms have "dropWhile (\<lambda>x. x \<noteq> c) (rev b @ (c # rev a)) = c # rev a"
    by (subst dropWhile_append2) auto
  ultimately show ?thesis by (simp add: LastIndex_def)
qed

lemma Split_no_separator:
  assumes "separator \<notin> set s"
  shows "Split (Path s) = (Path [], s)"
  using LastIndex_absent [OF assms] by (simp add: Split_def)

lemma Split_at_final_separator:
  assumes "separator \<notin> set b"
  shows "Split (Path (a @ separator # b)) = (Path a, b)"
  using LastIndex_final_hit [OF assms, of a] by (simp add: Split_def)

lemma decompose_at_last_index:
  assumes "i < length s" and "s ! i = c"
    and "\<forall>j. i < j \<and> j < length s \<longrightarrow> s ! j \<noteq> c"
  shows "s = take i s @ c # drop (Suc i) s \<and> c \<notin> set (drop (Suc i) s)"
proof
  from assms(1,2) show "s = take i s @ c # drop (Suc i) s"
    using id_take_nth_drop by blast
next
  show "c \<notin> set (drop (Suc i) s)"
  proof
    assume "c \<in> set (drop (Suc i) s)"
    then obtain k where k: "k < length (drop (Suc i) s)" "drop (Suc i) s ! k = c"
      by (auto simp: in_set_conv_nth)
    then have "Suc i + k < length s" and "s ! (Suc i + k) = c" by auto
    with assms(3) show False by (metis less_add_Suc1 add_Suc)
  qed
qed

text \<open>
  C4. \<open>Split\<close> cuts the underlying string at the last \<open>:\<close>. Without any \<open>:\<close> the result is
  the empty path and the whole string; with the last \<open>:\<close> at index \<open>i\<close> the result is the
  path of the bytes before \<open>i\<close> and the bytes after \<open>i\<close>. The five literal cases of the
  package's table follow, \<open>foo::baz\<close> keeping its first colon in the parent.
\<close>

theorem Split_at_last_separator:
  "(CHR '':'' \<notin> set s \<longrightarrow> Split (New s) = (New [], s)) \<and>
   (\<forall>i. i < length s \<and> s ! i = CHR '':'' \<and> (\<forall>j. i < j \<and> j < length s \<longrightarrow> s ! j \<noteq> CHR '':'')
      \<longrightarrow> Split (New s) = (New (take i s), drop (Suc i) s)) \<and>
   Split (New '''') = (New '''', '''') \<and>
   Split (New ''foo'') = (New '''', ''foo'') \<and>
   Split (New ''foo:bar'') = (New ''foo'', ''bar'') \<and>
   Split (New ''foo:bar:baz'') = (New ''foo:bar'', ''baz'') \<and>
   Split (New ''foo::baz'') = (New ''foo:'', ''baz'')"
proof -
  have none: "CHR '':'' \<notin> set s \<longrightarrow> Split (New s) = (New [], s)"
    using Split_no_separator [of s] by (simp add: New_def separator_def)
  have idx: "\<forall>i. i < length s \<and> s ! i = CHR '':'' \<and>
      (\<forall>j. i < j \<and> j < length s \<longrightarrow> s ! j \<noteq> CHR '':'')
      \<longrightarrow> Split (New s) = (New (take i s), drop (Suc i) s)"
  proof (intro allI impI)
    fix i
    assume h: "i < length s \<and> s ! i = CHR '':'' \<and>
      (\<forall>j. i < j \<and> j < length s \<longrightarrow> s ! j \<noteq> CHR '':'')"
    then have d: "s = take i s @ separator # drop (Suc i) s"
      and n: "separator \<notin> set (drop (Suc i) s)"
      using decompose_at_last_index [of i s "CHR '':''"] by (simp_all add: separator_def)
    have "Split (Path (take i s @ separator # drop (Suc i) s)) = (Path (take i s), drop (Suc i) s)"
      by (rule Split_at_final_separator [OF n])
    with d show "Split (New s) = (New (take i s), drop (Suc i) s)"
      by (simp add: New_def)
  qed
  have lits: "Split (New '''') = (New '''', '''')"
    "Split (New ''foo'') = (New '''', ''foo'')"
    "Split (New ''foo:bar'') = (New ''foo'', ''bar'')"
    "Split (New ''foo:bar:baz'') = (New ''foo:bar'', ''baz'')"
    "Split (New ''foo::baz'') = (New ''foo:'', ''baz'')"
    by (simp_all add: Split_def New_def LastIndex_def separator_def)
  from none idx lits show ?thesis by blast
qed

theorem Split_at_last_separator_witness:
  "Split (New ''a:b:c'') = (New ''a:b'', ''c'') \<and> Split (New ''abc'') = (New [], ''abc'')"
proof -
  have last: "(3::nat) < length ''a:b:c'' \<and> ''a:b:c'' ! 3 = CHR '':'' \<and>
      (\<forall>j. 3 < j \<and> j < length ''a:b:c'' \<longrightarrow> ''a:b:c'' ! j \<noteq> CHR '':'')"
  proof (intro conjI allI impI)
    fix j :: nat
    assume "3 < j \<and> j < length ''a:b:c''"
    then have "j = 4" by simp
    then show "''a:b:c'' ! j \<noteq> CHR '':''" by simp
  qed simp_all
  have "Split (New ''a:b:c'') = (New (take 3 ''a:b:c''), drop (Suc 3) ''a:b:c'')"
    using Split_at_last_separator [of "''a:b:c''"] last by blast
  moreover have "Split (New ''abc'') = (New [], ''abc'')"
    using Split_at_last_separator [of "''abc''"] by simp
  ultimately show ?thesis by simp
qed

lemma Path_Name_Path:
  "Path_Name (Path s) =
     (if CHR '':'' \<in> set (tl s) then (Name [], False) else (Name s, True))"
proof (cases "separator \<in> set s")
  case False
  then have "separator \<notin> set (tl s)" by (cases s) auto
  with Split_no_separator [OF False] show ?thesis
    by (simp add: Path_Name_def Parent_def separator_def)
next
  case True
  then obtain a b where s: "s = a @ separator # b" and b: "separator \<notin> set b"
    by (auto dest: split_list_last)
  have "a \<noteq> [] \<longleftrightarrow> separator \<in> set (tl s)"
    using s b by (cases a) auto
  with Split_at_final_separator [OF b, of a] s show ?thesis
    by (simp add: Path_Name_def Parent_def separator_def)
qed

text \<open>
  C1, as the code has it. \<open>Path.Name\<close> fails exactly when \<open>Parent\<close> reports a parent, and
  \<open>Parent\<close> reports one when the bytes before the last \<open>:\<close> are not empty. So the lowering
  succeeds, with the whole string as the name, if and only if no \<open>:\<close> stands after the
  first byte: the string has no \<open>:\<close> at all, or its only \<open>:\<close> is its first byte.
  Otherwise the result is the empty name and \<open>false\<close>.
\<close>

theorem Path_Name_succeeds_iff:
  "Path_Name (New s) =
     (if CHR '':'' \<in> set (tl s) then (Name [], False) else (Name s, True)) \<and>
   (CHR '':'' \<notin> set s \<longrightarrow> Path_Name (New s) = (Name s, True))"
proof -
  have "CHR '':'' \<notin> set s \<Longrightarrow> CHR '':'' \<notin> set (tl s)" by (cases s) auto
  then show ?thesis by (auto simp: New_def Path_Name_Path)
qed

theorem Path_Name_succeeds_iff_witness:
  "Path_Name (New ''foo'') = (Name ''foo'', True) \<and>
   Path_Name (New ''foo:bar'') = (Name [], False)"
  using Path_Name_succeeds_iff [of "''foo''"] Path_Name_succeeds_iff [of "''foo:bar''"]
  by simp

text \<open>
  The claim C1 as stated fails: \<open>:foo\<close> contains the separator, and lowering it succeeds
  with the name \<open>:foo\<close>.
\<close>

theorem Path_Name_leading_separator_counterexample:
  "CHR '':'' \<in> set '':foo'' \<and> Path_Name (New '':foo'') = (Name '':foo'', True)"
  by (simp add: New_def Path_Name_Path)

text \<open>
  C5. Joining a segment that contains no \<open>:\<close> onto any path and splitting the result gives
  back the path and the segment. On the empty path \<open>Join\<close> yields the segment alone, with
  no leading separator, and \<open>Split\<close> recovers the empty path and the segment.
\<close>

theorem Split_Join_inverse:
  "CHR '':'' \<notin> set seg \<Longrightarrow>
     Split (Join p seg) = (p, seg) \<and> (Path_Empty p \<longrightarrow> Join p seg = New seg)"
proof -
  assume "CHR '':'' \<notin> set seg"
  then have n: "separator \<notin> set seg" by (simp add: separator_def)
  obtain v where p: "p = Path v" by (cases p)
  show ?thesis
  proof (cases "v = []")
    case True
    with p Split_no_separator [OF n] show ?thesis
      by (simp add: Join_def Path_Empty_def New_def)
  next
    case False
    with p Split_at_final_separator [OF n, of v] show ?thesis
      by (simp add: Join_def Path_Empty_def)
  qed
qed

theorem Split_Join_inverse_witness:
  "Split (Join (New ''foo:bar'') ''baz'') = (New ''foo:bar'', ''baz'') \<and>
   Split (Join (New []) ''baz'') = (New [], ''baz'') \<and>
   Join (New []) ''baz'' = New ''baz''"
  using Split_Join_inverse [of "''baz''" "New ''foo:bar''"]
    Split_Join_inverse [of "''baz''" "New []"]
  by (simp add: Path_Empty_def New_def Join_def)

text \<open>
  C6. \<open>HasPrefix\<close> holds exactly when the other path's string is a prefix of this path's
  string, byte for byte; a segment boundary plays no role, so \<open>elephant2\<close> has the prefix
  \<open>elephant\<close>.
\<close>

theorem HasPrefix_raw_prefix:
  "(HasPrefix p q \<longleftrightarrow> (\<exists>rest. path_value p = path_value q @ rest)) \<and>
   HasPrefix (New ''elephant2'') (New ''elephant'')"
proof
  show "HasPrefix p q \<longleftrightarrow> (\<exists>rest. path_value p = path_value q @ rest)"
  proof
    assume "HasPrefix p q"
    then have "take (length (path_value q)) (path_value p) = path_value q"
      by (simp add: HasPrefix_def strings_HasPrefix_def)
    then have "path_value p = path_value q @ drop (length (path_value q)) (path_value p)"
      by (metis append_take_drop_id)
    then show "\<exists>rest. path_value p = path_value q @ rest" ..
  next
    assume "\<exists>rest. path_value p = path_value q @ rest"
    then show "HasPrefix p q"
      by (auto simp: HasPrefix_def strings_HasPrefix_def)
  qed
next
  show "HasPrefix (New ''elephant2'') (New ''elephant'')"
    by (simp add: HasPrefix_def strings_HasPrefix_def New_def)
qed

text \<open>
  C8. When the annotations of an object are the \<open>nil\<close> map, or a map without the key
  \<open>kcp.dev/cluster\<close> (the empty map among them), \<open>From\<close> returns the empty name. \<open>From\<close>
  has no error result: it returns a \<open>Name\<close> on every object.
\<close>

theorem From_absent_key_Empty:
  "GetAnnotations obj = None \<or>
   (\<exists>tab. GetAnnotations obj = Some tab \<and> tab AnnotationKey = None)
   \<Longrightarrow> Name_Empty (From obj)"
  by (auto simp: From_def map_index_def Name_Empty_def)

theorem From_absent_key_Empty_witness:
  "Name_Empty (From \<lparr>GetAnnotations = None\<rparr>) \<and>
   Name_Empty (From \<lparr>GetAnnotations = Some Map.empty\<rparr>) \<and>
   Name_Empty (From \<lparr>GetAnnotations = Some [''owner'' \<mapsto> ''team-a'']\<rparr>)"
proof (intro conjI)
  show "Name_Empty (From \<lparr>GetAnnotations = None\<rparr>)"
    using From_absent_key_Empty [of "\<lparr>GetAnnotations = None\<rparr>"] by simp
  show "Name_Empty (From \<lparr>GetAnnotations = Some Map.empty\<rparr>)"
    using From_absent_key_Empty [of "\<lparr>GetAnnotations = Some Map.empty\<rparr>"] by simp
  show "Name_Empty (From \<lparr>GetAnnotations = Some [''owner'' \<mapsto> ''team-a'']\<rparr>)"
    using From_absent_key_Empty [of "\<lparr>GetAnnotations = Some [''owner'' \<mapsto> ''team-a'']\<rparr>"]
    by (simp add: AnnotationKey_def)
qed

section \<open>Correctness of the matcher\<close>

lemma nullable_iff: "nullable r \<longleftrightarrow> [] \<in> lang r"
  by (induction r) (auto simp: conc_def intro: star.star_empty)

lemma conc_deriv:
  "{w. c # w \<in> conc A B} =
     conc {w. c # w \<in> A} B \<union> (if [] \<in> A then {w. c # w \<in> B} else {})"
  unfolding conc_def
  by (auto simp: Cons_eq_append_conv)

lemma star_deriv_sub:
  assumes "x \<in> star A" and "x = c # w"
  shows "\<exists>u v. w = u @ v \<and> c # u \<in> A \<and> v \<in> star A"
  using assms
proof (induction rule: star.induct)
  case star_empty
  then show ?case by simp
next
  case (star_step a t)
  show ?case
  proof (cases a)
    case Nil
    with star_step show ?thesis by simp
  next
    case (Cons d u)
    with star_step.prems have "d = c" and "w = u @ t" by simp_all
    with Cons star_step.hyps show ?thesis by blast
  qed
qed

lemma star_deriv: "{w. c # w \<in> star A} = conc {w. c # w \<in> A} (star A)"
proof (intro equalityI subsetI)
  fix w assume "w \<in> {w. c # w \<in> star A}"
  then show "w \<in> conc {w. c # w \<in> A} (star A)"
    using star_deriv_sub [of "c # w" A c w] by (auto simp: conc_def)
next
  fix w assume "w \<in> conc {w. c # w \<in> A} (star A)"
  then obtain u v where "w = u @ v" "c # u \<in> A" "v \<in> star A"
    by (auto simp: conc_def)
  then show "w \<in> {w. c # w \<in> star A}"
    using star.star_step [of "c # u" A v] by simp
qed

lemma lang_deriv: "lang (deriv c r) = {w. c # w \<in> lang r}"
proof (induction r)
  case (Concat r s)
  then show ?case by (simp add: conc_deriv nullable_iff)
next
  case (Star r)
  then show ?case by (simp add: star_deriv)
qed (auto simp: conc_def)

lemma lang_derivs: "nullable (foldl (\<lambda>r c. deriv c r) r s) \<longleftrightarrow> s \<in> lang r"
  by (induction s arbitrary: r) (simp_all add: nullable_iff lang_deriv)

lemma MatchString_lang: "MatchString r s \<longleftrightarrow> s \<in> lang r"
  by (simp add: MatchString_def lang_derivs)


lemma in_class_alnum:
  "in_class [(CHR ''a'', CHR ''z''), (CHR ''0'', CHR ''9'')] c \<longleftrightarrow> is_lower_alnum c"
  by (simp add: in_class_def is_lower_alnum_def)

lemma in_class_alnum_hyphen:
  "in_class [(CHR ''a'', CHR ''z''), (CHR ''0'', CHR ''9''), (CHR ''-'', CHR ''-'')] c
     \<longleftrightarrow> is_interior c"
  by (auto simp: in_class_def is_interior_def is_lower_alnum_def)

lemma conc_class:
  "conc {[c] | c. P c} B = {c # v | c v. P c \<and> v \<in> B}"
proof (intro equalityI subsetI)
  fix w assume "w \<in> conc {[c] | c. P c} B"
  then show "w \<in> {c # v | c v. P c \<and> v \<in> B}" by (auto simp: conc_def)
next
  fix w assume "w \<in> {c # v | c v. P c \<and> v \<in> B}"
  then obtain c v where "w = [c] @ v" "P c" "v \<in> B" by auto
  then show "w \<in> conc {[c] | c. P c} B" unfolding conc_def by blast
qed

lemma lang_class_alnum: "lang class_alnum = {[c] | c. is_lower_alnum c}"
  by (simp add: class_alnum_def in_class_alnum)

lemma lang_Repeat_upto:
  "lang (Repeat (CharClass rs) 0 m) = {w. length w \<le> m \<and> list_all (in_class rs) w}"
proof (induction m)
  case 0
  show ?case by auto
next
  case (Suc m)
  have "{c # v | c v. in_class rs c \<and> v \<in> {w. length w \<le> m \<and> list_all (in_class rs) w}}
      = {w. w \<noteq> [] \<and> length w \<le> Suc m \<and> list_all (in_class rs) w}"
  proof (intro equalityI subsetI)
    fix w assume "w \<in> {w. w \<noteq> [] \<and> length w \<le> Suc m \<and> list_all (in_class rs) w}"
    then show "w \<in> {c # v | c v. in_class rs c \<and>
        v \<in> {w. length w \<le> m \<and> list_all (in_class rs) w}}"
      by (cases w) auto
  qed auto
  with Suc show ?case by (auto simp: conc_class)
qed

lemma lang_interior:
  "lang (Repeat class_alnum_hyphen 0 m) = {w. length w \<le> m \<and> list_all is_interior w}"
  by (simp add: class_alnum_hyphen_def lang_Repeat_upto in_class_alnum_hyphen [abs_def])

lemma ends_decompose:
  assumes "2 \<le> length s"
  shows "s = hd s # butlast (tl s) @ [last s]"
proof -
  from assms obtain a t where s: "s = a # t" and t: "t \<noteq> []"
    by (cases s) (auto simp: Suc_le_eq)
  then show ?thesis by simp
qed

lemma lang_bounded_tail:
  "lang (Concat (Repeat class_alnum_hyphen 0 m) class_alnum) =
     {w @ [b] | w b. length w \<le> m \<and> list_all is_interior w \<and> is_lower_alnum b}"
  by (auto simp: lang_interior lang_class_alnum conc_def)

lemma lang_clusterNameString_explicit:
  "lang clusterNameString =
     {a # w @ [b] | a w b.
        is_lower_alnum a \<and> length w \<le> 61 \<and> list_all is_interior w \<and> is_lower_alnum b}"
proof -
  have "lang clusterNameString =
      conc (lang class_alnum) (lang (Concat (Repeat class_alnum_hyphen 0 61) class_alnum))"
    by (simp add: clusterNameString_def)
  also have "\<dots> = {a # v | a v. is_lower_alnum a \<and>
      v \<in> {w @ [b] | w b. length w \<le> 61 \<and> list_all is_interior w \<and> is_lower_alnum b}}"
    unfolding lang_bounded_tail lang_class_alnum by (rule conc_class)
  also have "\<dots> = {a # w @ [b] | a w b.
      is_lower_alnum a \<and> length w \<le> 61 \<and> list_all is_interior w \<and> is_lower_alnum b}"
    by auto
  finally show ?thesis .
qed

lemma lang_clusterNameString: "lang clusterNameString = {s. name_grammar s}"
proof (intro equalityI subsetI)
  fix s assume "s \<in> lang clusterNameString"
  then obtain a w b where "s = a # w @ [b]" "is_lower_alnum a" "length w \<le> 61"
    "list_all is_interior w" "is_lower_alnum b"
    unfolding lang_clusterNameString_explicit by auto
  then show "s \<in> {s. name_grammar s}" by (simp add: name_grammar_def)
next
  fix s assume "s \<in> {s. name_grammar s}"
  then have g: "name_grammar s" by simp
  then have "s = hd s # butlast (tl s) @ [last s]"
    by (simp add: name_grammar_def ends_decompose)
  moreover from g have "length (butlast (tl s)) \<le> 61" by (auto simp: name_grammar_def)
  ultimately show "s \<in> lang clusterNameString"
    using g unfolding lang_clusterNameString_explicit name_grammar_def by blast
qed

lemma segment_grammar_cases:
  "segment_grammar s \<longleftrightarrow> (\<exists>c. s = [c] \<and> is_lower_alnum c) \<or> name_grammar s"
proof (cases "length s = 1")
  case True
  then obtain c where "s = [c]" by (cases s) auto
  then show ?thesis by (simp add: segment_grammar_def segment_shape_def name_grammar_def)
next
  case False
  then have "s \<noteq> [] \<longleftrightarrow> 2 \<le> length s" by (cases s) (auto simp: Suc_le_eq)
  with False show ?thesis
    by (auto simp: segment_grammar_def segment_shape_def name_grammar_def)
qed

lemma lang_lclusterNameFmt: "lang lclusterNameFmt = {s. segment_grammar s}"
proof -
  have "lang lclusterNameFmt =
      conc (lang class_alnum)
        (insert [] (lang (Concat (Repeat class_alnum_hyphen 0 61) class_alnum)))"
    by (simp add: lclusterNameFmt_def)
  also have "\<dots> = {[c] | c. is_lower_alnum c} \<union>
      conc (lang class_alnum) (lang (Concat (Repeat class_alnum_hyphen 0 61) class_alnum))"
    unfolding lang_class_alnum conc_class by auto
  also have "\<dots> = {[c] | c. is_lower_alnum c} \<union> lang clusterNameString"
    by (simp add: clusterNameString_def)
  finally show ?thesis
    by (auto simp: lang_clusterNameString segment_grammar_cases)
qed


lemma join_with_Cons: "join_with c (w # ws) = w @ concat (map ((#) c) ws)"
  by (induction ws arbitrary: w) simp_all

lemma separated_in_star:
  assumes "list_all (\<lambda>w. w \<in> A) ws"
  shows "concat (map ((#) c) ws) \<in> star (conc {[c]} A)"
  using assms
proof (induction ws)
  case Nil
  show ?case by (simp add: star.star_empty)
next
  case (Cons w ws)
  then have "[c] @ w \<in> conc {[c]} A" and "concat (map ((#) c) ws) \<in> star (conc {[c]} A)"
    unfolding conc_def by auto
  then have "([c] @ w) @ concat (map ((#) c) ws) \<in> star (conc {[c]} A)"
    by (rule star.star_step)
  then show ?case by simp
qed

lemma star_separated:
  assumes "x \<in> star (conc {[c]} A)"
  shows "\<exists>ws. list_all (\<lambda>w. w \<in> A) ws \<and> x = concat (map ((#) c) ws)"
  using assms
proof (induction rule: star.induct)
  case star_empty
  have "list_all (\<lambda>w. w \<in> A) [] \<and> [] = concat (map ((#) c) [])" by simp
  then show ?case by blast
next
  case (star_step u v)
  then obtain w ws where "u = c # w" "w \<in> A" "list_all (\<lambda>w. w \<in> A) ws"
    "v = concat (map ((#) c) ws)"
    by (auto simp: conc_def)
  then have "list_all (\<lambda>w. w \<in> A) (w # ws) \<and> u @ v = concat (map ((#) c) (w # ws))"
    by simp
  then show ?case by blast
qed

lemma lang_lclusterRegExp:
  "s \<in> lang lclusterRegExp \<longleftrightarrow>
     (\<exists>segs. segs \<noteq> [] \<and> list_all segment_grammar segs \<and> s = join_with CHR '':'' segs)"
proof
  assume "s \<in> lang lclusterRegExp"
  then obtain w x where s: "s = w @ x" and w: "segment_grammar w"
    and x: "x \<in> star (conc {[CHR '':'']} {s. segment_grammar s})"
    by (auto simp: lclusterRegExp_def lang_lclusterNameFmt conc_def)
  from star_separated [OF x] obtain ws where "list_all segment_grammar ws"
    "x = concat (map ((#) CHR '':'') ws)" by auto
  with s w have "w # ws \<noteq> [] \<and> list_all segment_grammar (w # ws) \<and>
      s = join_with CHR '':'' (w # ws)"
    by (simp add: join_with_Cons)
  then show "\<exists>segs. segs \<noteq> [] \<and> list_all segment_grammar segs \<and> s = join_with CHR '':'' segs"
    by blast
next
  assume "\<exists>segs. segs \<noteq> [] \<and> list_all segment_grammar segs \<and> s = join_with CHR '':'' segs"
  then obtain segs where segs: "segs \<noteq> []" "list_all segment_grammar segs"
    "s = join_with CHR '':'' segs" by blast
  then obtain w ws where "segs = w # ws" by (cases segs) auto
  with segs have w: "segment_grammar w" and ws: "list_all segment_grammar ws"
    and s: "s = join_with CHR '':'' (w # ws)" by simp_all
  from ws have "list_all (\<lambda>w. w \<in> {s. segment_grammar s}) ws" by simp
  from separated_in_star [OF this, of "CHR '':''"] w s show "s \<in> lang lclusterRegExp"
    by (auto simp: lclusterRegExp_def lang_lclusterNameFmt conc_def join_with_Cons)
qed

lemma split_on_plain: "c \<notin> set w \<Longrightarrow> split_on c w = [w]"
  by (induction w) auto

lemma split_on_separator: "c \<notin> set w \<Longrightarrow> split_on c (w @ c # rest) = w # split_on c rest"
  by (induction w) auto

lemma split_on_join_with:
  assumes "segs \<noteq> []" and "list_all (\<lambda>w. c \<notin> set w) segs"
  shows "split_on c (join_with c segs) = segs"
  using assms
  by (induction c segs rule: join_with.induct)
     (simp_all add: split_on_plain split_on_separator)

lemma join_with_split_on: "join_with c (split_on c s) = s"
proof (induction s)
  case Nil
  show ?case by simp
next
  case (Cons x xs)
  then show ?case
    by (cases "split_on c xs"; cases "tl (split_on c xs)")
       (auto split: list.splits)
qed

lemma is_interior_not_separator: "is_interior c \<Longrightarrow> c \<noteq> CHR '':''"
  by (auto simp: is_interior_def is_lower_alnum_def)

lemma segment_shape_no_separator:
  assumes "segment_shape s"
  shows "CHR '':'' \<notin> set s"
proof (cases "length s = 1")
  case True
  then obtain a where "s = [a]" by (cases s) auto
  with assms have "is_interior a" by (simp add: segment_shape_def is_interior_def)
  with \<open>s = [a]\<close> show ?thesis by (auto dest: is_interior_not_separator)
next
  case False
  with assms have "2 \<le> length s" by (cases s) (auto simp: segment_shape_def Suc_le_eq)
  then have "s = hd s # butlast (tl s) @ [last s]" by (rule ends_decompose)
  then have "set s = insert (hd s) (insert (last s) (set (butlast (tl s))))"
    by (metis Un_insert_right append_Nil2 list.simps(15) set_append insert_commute)
  moreover from assms have "is_interior (hd s)" "is_interior (last s)"
    "\<forall>x \<in> set (butlast (tl s)). is_interior x"
    by (simp_all add: segment_shape_def is_interior_def list_all_iff)
  ultimately have "\<forall>x \<in> set s. is_interior x" by simp
  then show ?thesis by (auto dest: is_interior_not_separator)
qed

lemma Name_IsValid_grammar: "Name_IsValid (Name s) \<longleftrightarrow> name_grammar s"
  by (simp add: Name_IsValid_def clusterNameRegExp_def MatchString_lang lang_clusterNameString)

lemma Path_IsValid_segments:
  "Path_IsValid (Path s) \<longleftrightarrow>
     s = ''*'' \<or>
     (\<exists>segs. segs \<noteq> [] \<and> list_all segment_grammar segs \<and> s = join_with CHR '':'' segs)"
  by (simp add: Path_IsValid_def Wildcard_def MatchString_lang lang_lclusterRegExp)

lemma split_on_not_Nil: "split_on c s \<noteq> []"
  by (induction s) (auto split: list.splits)

lemma segments_iff_split_on:
  "(\<exists>segs. segs \<noteq> [] \<and> list_all segment_grammar segs \<and> s = join_with CHR '':'' segs)
     \<longleftrightarrow> list_all segment_grammar (split_on CHR '':'' s)"
proof
  assume "\<exists>segs. segs \<noteq> [] \<and> list_all segment_grammar segs \<and> s = join_with CHR '':'' segs"
  then obtain segs where segs: "segs \<noteq> []" "list_all segment_grammar segs"
    "s = join_with CHR '':'' segs" by blast
  from segs(2) have "list_all (\<lambda>w. CHR '':'' \<notin> set w) segs"
    by (auto simp: list_all_iff segment_grammar_def dest: segment_shape_no_separator)
  with segs(1) have "split_on CHR '':'' (join_with CHR '':'' segs) = segs"
    by (rule split_on_join_with)
  with segs show "list_all segment_grammar (split_on CHR '':'' s)" by simp
next
  assume "list_all segment_grammar (split_on CHR '':'' s)"
  then have "split_on CHR '':'' s \<noteq> [] \<and> list_all segment_grammar (split_on CHR '':'' s) \<and>
      s = join_with CHR '':'' (split_on CHR '':'' s)"
    by (simp add: split_on_not_Nil join_with_split_on)
  then show "\<exists>segs. segs \<noteq> [] \<and> list_all segment_grammar segs \<and> s = join_with CHR '':'' segs"
    by blast
qed

lemma Path_IsValid_split_on:
  "Path_IsValid (Path s) \<longleftrightarrow> s = ''*'' \<or> list_all segment_grammar (split_on CHR '':'' s)"
  by (simp add: Path_IsValid_segments segments_iff_split_on)

section \<open>Validity of names and paths\<close>

text \<open>
  C7. \<open>Name.IsValid\<close> accepts exactly the strings of the pattern
  \<open>^[a-z0-9][a-z0-9-]{0,61}[a-z0-9]$\<close>: length between 2 and 63, first and last character a
  lower-case letter or digit, the characters between them lower-case letters, digits or
  hyphens. Every string of one character and every string of more than 63 characters is
  rejected.
\<close>

theorem Name_IsValid_iff_grammar:
  "(Name_IsValid (Name s) \<longleftrightarrow>
      2 \<le> length s \<and> length s \<le> 63 \<and> is_lower_alnum (hd s) \<and> is_lower_alnum (last s) \<and>
      (\<forall>c \<in> set (butlast (tl s)). is_lower_alnum c \<or> c = CHR ''-'')) \<and>
   (length s = 1 \<longrightarrow> \<not> Name_IsValid (Name s)) \<and>
   (63 < length s \<longrightarrow> \<not> Name_IsValid (Name s))"
  by (auto simp: Name_IsValid_grammar name_grammar_def list_all_iff is_interior_def)

theorem Name_IsValid_iff_grammar_witness:
  "Name_IsValid (Name ''a-b'') \<and> \<not> Name_IsValid (Name ''a'') \<and> \<not> Name_IsValid (Name ''-a'') \<and>
   \<not> Name_IsValid (Name ''aaaaaaaaaaaaaaaaaaaaaaaaaaaaaaaaaaaaaaaaaaaaaaaaaaaaaaaaaaaaaaaa'')"
proof (intro conjI)
  show "Name_IsValid (Name ''a-b'')"
    using Name_IsValid_iff_grammar [of "''a-b''"] by (simp add: is_lower_alnum_def)
  show "\<not> Name_IsValid (Name ''a'')"
    using Name_IsValid_iff_grammar [of "''a''"] by simp
  show "\<not> Name_IsValid (Name ''-a'')"
    using Name_IsValid_iff_grammar [of "''-a''"] by (simp add: is_lower_alnum_def)
  show "\<not> Name_IsValid (Name ''aaaaaaaaaaaaaaaaaaaaaaaaaaaaaaaaaaaaaaaaaaaaaaaaaaaaaaaaaaaaaaaa'')"
    using Name_IsValid_iff_grammar [of "''aaaaaaaaaaaaaaaaaaaaaaaaaaaaaaaaaaaaaaaaaaaaaaaaaaaaaaaaaaaaaaaa''"]
    by simp
qed

text \<open>
  C3. \<open>Path.IsValid\<close> holds exactly for the wildcard \<open>*\<close> and for the strings that are one
  or more segments of the segment grammar (1 to 63 characters each, as the pattern
  \<open>lclusterNameFmt\<close> has it) with a single \<open>:\<close> between neighbours and nothing before the
  first or after the last segment; no segment is empty. The literal cases of the
  package's table follow.
\<close>

theorem Path_IsValid_iff_segments:
  "(Path_IsValid p \<longleftrightarrow>
      p = Wildcard \<or>
      (\<exists>segs. segs \<noteq> [] \<and> (\<forall>seg \<in> set segs. segment_grammar seg) \<and>
         path_value p = join_with CHR '':'' segs)) \<and>
   \<not> Path_IsValid (New []) \<and>
   Path_IsValid (New ''*'') \<and>
   Path_IsValid (New ''elephant'') \<and>
   Path_IsValid (New ''elephant:foo:bar'') \<and>
   \<not> Path_IsValid (New ''elephant:'') \<and>
   \<not> Path_IsValid (New '':elephant'') \<and>
   \<not> Path_IsValid (New ''elephant::foo'')"
proof -
  obtain s where p: "p = Path s" by (cases p)
  have general: "Path_IsValid p \<longleftrightarrow>
      p = Wildcard \<or>
      (\<exists>segs. segs \<noteq> [] \<and> (\<forall>seg \<in> set segs. segment_grammar seg) \<and>
         path_value p = join_with CHR '':'' segs)"
    unfolding p by (simp add: Path_IsValid_segments Wildcard_def list_all_iff)
  have literal: "\<not> Path_IsValid (New [])" "Path_IsValid (New ''*'')"
    "Path_IsValid (New ''elephant'')" "Path_IsValid (New ''elephant:foo:bar'')"
    "\<not> Path_IsValid (New ''elephant:'')" "\<not> Path_IsValid (New '':elephant'')"
    "\<not> Path_IsValid (New ''elephant::foo'')"
    by (simp_all add: New_def Path_IsValid_split_on segment_grammar_def segment_shape_def
        is_lower_alnum_def is_interior_def)
  from general literal show ?thesis by blast
qed

theorem Path_IsValid_iff_segments_witness:
  "Path_IsValid (New ''system:foo'') \<and> \<not> Path_IsValid (New ''elephant:bar_bar'')"
proof
  have "[''system'', ''foo''] \<noteq> [] \<and>
      (\<forall>seg \<in> set [''system'', ''foo'']. segment_grammar seg) \<and>
      path_value (New ''system:foo'') = join_with CHR '':'' [''system'', ''foo'']"
    by (simp add: New_def segment_grammar_def segment_shape_def is_lower_alnum_def
        is_interior_def)
  then have "\<exists>segs. segs \<noteq> [] \<and> (\<forall>seg \<in> set segs. segment_grammar seg) \<and>
      path_value (New ''system:foo'') = join_with CHR '':'' segs"
    by blast
  with Path_IsValid_iff_segments [of "New ''system:foo''"]
  show "Path_IsValid (New ''system:foo'')" by blast
next
  have "\<not> (\<exists>segs. segs \<noteq> [] \<and> (\<forall>seg \<in> set segs. segment_grammar seg) \<and>
      ''elephant:bar_bar'' = join_with CHR '':'' segs)"
    unfolding list_all_iff [symmetric] segments_iff_split_on
    by (simp add: segment_grammar_def segment_shape_def is_lower_alnum_def is_interior_def)
  with Path_IsValid_iff_segments [of "New ''elephant:bar_bar''"]
  show "\<not> Path_IsValid (New ''elephant:bar_bar'')"
    by (simp add: New_def Wildcard_def)
qed

text \<open>
  C2, as the code has it. For a string of one or more colon-separated segments of the
  right shape (first and last character a lower-case letter or digit, the characters
  between them lower-case letters, digits or hyphens), \<open>Path.IsValid\<close> holds if and only
  if every segment has at most 63 characters: the pattern \<open>lclusterNameFmt\<close> allows at
  most 61 characters between the first and the last.
\<close>

theorem Path_IsValid_iff_segment_length:
  assumes "segs \<noteq> []" and "\<forall>seg \<in> set segs. segment_shape seg"
  shows "Path_IsValid (New (join_with CHR '':'' segs)) \<longleftrightarrow> (\<forall>seg \<in> set segs. length seg \<le> 63)"
proof -
  from assms(2) have "list_all (\<lambda>w. CHR '':'' \<notin> set w) segs"
    by (auto simp: list_all_iff dest: segment_shape_no_separator)
  with assms(1) have split: "split_on CHR '':'' (join_with CHR '':'' segs) = segs"
    by (rule split_on_join_with)
  have "join_with CHR '':'' segs \<noteq> ''*''"
  proof
    assume star: "join_with CHR '':'' segs = ''*''"
    with split have "segs = [''*'']" by simp
    with assms(2) show False by (simp add: segment_shape_def is_lower_alnum_def)
  qed
  moreover from assms(2) have "list_all segment_grammar segs \<longleftrightarrow> (\<forall>seg \<in> set segs. length seg \<le> 63)"
    by (auto simp: list_all_iff segment_grammar_def)
  ultimately show ?thesis
    by (simp add: New_def Path_IsValid_split_on split)
qed

theorem Path_IsValid_iff_segment_length_witness:
  "Path_IsValid (New ''elephant:b1234567890123456789012345678912'') \<and>
   \<not> Path_IsValid (New ''elephant:b123456789012345678901234567890123456789012345678901234567890123'')"
proof
  have shape: "\<forall>seg \<in> set [''elephant'', ''b1234567890123456789012345678912'']. segment_shape seg"
    by (simp add: segment_shape_def is_lower_alnum_def is_interior_def)
  show "Path_IsValid (New ''elephant:b1234567890123456789012345678912'')"
    using Path_IsValid_iff_segment_length
      [of "[''elephant'', ''b1234567890123456789012345678912'']", OF _ shape]
    by simp
next
  have shape: "\<forall>seg \<in> set [''elephant'',
      ''b123456789012345678901234567890123456789012345678901234567890123'']. segment_shape seg"
    by (simp add: segment_shape_def is_lower_alnum_def is_interior_def)
  show "\<not> Path_IsValid
      (New ''elephant:b123456789012345678901234567890123456789012345678901234567890123'')"
    using Path_IsValid_iff_segment_length
      [of "[''elephant'', ''b123456789012345678901234567890123456789012345678901234567890123'']",
        OF _ shape]
    by simp
qed

text \<open>
  The claim C2 as stated fails: a single segment of 64 letters has the shape the claim
  asks for, and \<open>Path.IsValid\<close> rejects it.
\<close>

theorem Path_IsValid_long_segment_counterexample:
  "length ''aaaaaaaaaaaaaaaaaaaaaaaaaaaaaaaaaaaaaaaaaaaaaaaaaaaaaaaaaaaaaaaa'' = 64 \<and>
   segment_shape ''aaaaaaaaaaaaaaaaaaaaaaaaaaaaaaaaaaaaaaaaaaaaaaaaaaaaaaaaaaaaaaaa'' \<and>
   \<not> Path_IsValid (New ''aaaaaaaaaaaaaaaaaaaaaaaaaaaaaaaaaaaaaaaaaaaaaaaaaaaaaaaaaaaaaaaa'')"
  by (simp add: New_def Path_IsValid_split_on segment_grammar_def segment_shape_def
      is_lower_alnum_def is_interior_def)

text \<open>
  C9. A valid name, lifted to a path, is a valid path: the grammar of a name is the
  grammar of a single segment restricted to two or more characters.
\<close>

theorem Name_IsValid_imp_Path_IsValid:
  "Name_IsValid n \<Longrightarrow> Path_IsValid (Name_Path n)"
proof -
  assume valid: "Name_IsValid n"
  obtain s where n: "n = Name s" by (cases n)
  with valid have "segment_grammar s"
    by (simp add: Name_IsValid_grammar segment_grammar_cases)
  then have "[s] \<noteq> [] \<and> list_all segment_grammar [s] \<and> s = join_with CHR '':'' [s]"
    by simp
  then have "\<exists>segs. segs \<noteq> [] \<and> list_all segment_grammar segs \<and> s = join_with CHR '':'' segs"
    by blast
  with n show ?thesis
    by (simp add: Name_Path_def New_def Path_IsValid_segments)
qed

theorem Name_IsValid_imp_Path_IsValid_witness:
  "Name_IsValid (Name ''root-1'') \<and> Path_IsValid (Name_Path (Name ''root-1''))"
proof -
  have valid: "Name_IsValid (Name ''root-1'')"
    by (simp add: Name_IsValid_grammar name_grammar_def is_lower_alnum_def is_interior_def)
  from valid Name_IsValid_imp_Path_IsValid [OF valid] show ?thesis by simp
qed

text \<open>
  C10. Lowering the wildcard path succeeds, since \<open>*\<close> contains no separator, and gives
  the name \<open>*\<close>, which \<open>Name.IsValid\<close> rejects.
\<close>

theorem Wildcard_Name_not_valid:
  "Path_Name Wildcard = (Name ''*'', True) \<and> \<not> Name_IsValid (Name ''*'')"
  by (simp add: Wildcard_def Path_Name_Path Name_IsValid_grammar name_grammar_def)

end
